theory Spec2Isabelle
  imports Complex_Main
begin

section \<open>Strings\<close>

text \<open>
  A JavaScript string is a sequence of 16-bit code units. It is modelled as a \<open>string\<close>,
  a list of 8-bit characters, and \<open>CHR n\<close> is read as the code unit \<open>U+00nn\<close>: the
  strings of the model are the JavaScript strings whose code units are all below
  \<open>U+0100\<close> (ASCII and the Latin-1 supplement). Code units from \<open>U+0100\<close> on are outside
  the type.

  On these strings \<open>String.prototype.toLowerCase\<close> works code unit by code unit. The
  code units with a lower-case mapping are \<open>A\<close> .. \<open>Z\<close> (\<open>0x41\<close> .. \<open>0x5A\<close>), \<open>0xC0\<close> ..
  \<open>0xD6\<close> and \<open>0xD8\<close> .. \<open>0xDE\<close>; each maps to the code unit \<open>0x20\<close> above it. All others
  (among them the multiplication sign \<open>0xD7\<close> and the sharp s \<open>0xDF\<close>) stay as they are.
\<close>

definition isUpperCase :: "char \<Rightarrow> bool" where
  "isUpperCase c =
     (let n = (of_char c :: nat)
      in (0x41 \<le> n \<and> n \<le> 0x5A) \<or> (0xC0 \<le> n \<and> n \<le> 0xD6) \<or> (0xD8 \<le> n \<and> n \<le> 0xDE))"

definition lowerChar :: "char \<Rightarrow> char" where
  "lowerChar c = (if isUpperCase c then char_of ((of_char c :: nat) + 0x20) else c)"

definition toLowerCase :: "string \<Rightarrow> string" where
  "toLowerCase s = map lowerChar s"

text \<open>\<open>String.prototype.startsWith\<close> and \<open>String.prototype.includes\<close> (named \<open>includes_str\<close> here).\<close>

fun startsWith :: "string \<Rightarrow> string \<Rightarrow> bool" where
  "startsWith s [] = True"
| "startsWith [] (c # t) = False"
| "startsWith (a # s) (c # t) = (a = c \<and> startsWith s t)"

fun includes_str :: "string \<Rightarrow> string \<Rightarrow> bool" where
  "includes_str [] t = (t = [])"
| "includes_str (a # s) t = (startsWith (a # s) t \<or> includes_str s t)"

section \<open>The viewer's document tree\<close>

text \<open>
  \<open>PDFViewer.tsx\<close> works on the subtree of the container \<open>div\<close>. Elements are addresses;
  \<open>classes\<close> is the store of their class lists. \<open>textLayers\<close> is what
  \<open>querySelectorAll('.react-pdf__Page__textContent')\<close> followed by a \<open>SHOW_TEXT\<close> tree
  walker over each layer yields: per layer, in document order, the text nodes with their
  \<open>nodeValue\<close> and the element that is their \<open>parentNode\<close>. Several text nodes may
  have the same parent element. \<open>highlightText\<close> only ever changes the two highlight
  classes, so the list of layers is the same before and after a call.
\<close>

type_synonym elem = nat

record text_node =
  nodeValue :: string
  parentNode :: elem

record container =
  classes :: "elem \<Rightarrow> string set"
  textLayers :: "text_node list list"

definition HIGHLIGHTED :: string where
  "HIGHLIGHTED = ''highlighted-text''"

definition BG_YELLOW :: string where
  "BG_YELLOW = ''bg-yellow-300''"

definition classList_contains :: "string set \<Rightarrow> string \<Rightarrow> bool" where
  "classList_contains cl c = (c \<in> cl)"

definition classList_add :: "string set \<Rightarrow> string list \<Rightarrow> string set" where
  "classList_add cl cs = cl \<union> set cs"

definition classList_remove :: "string set \<Rightarrow> string list \<Rightarrow> string set" where
  "classList_remove cl cs = cl - set cs"

text \<open>
  Lines 35-38: every element of the container that carries \<open>highlighted-text\<close> loses
  both highlight classes; the other elements are not touched.
\<close>

definition removePrevious :: "(elem \<Rightarrow> string set) \<Rightarrow> (elem \<Rightarrow> string set)" where
  "removePrevious cls =
     (\<lambda>e. if classList_contains (cls e) HIGHLIGHTED
          then classList_remove (cls e) [HIGHLIGHTED, BG_YELLOW]
          else cls e)"

text \<open>
  The state of the scan (lines 42-69): the class store, \<open>firstMatch\<close>, \<open>found\<close>, and
  the trace \<open>added\<close> of the elements on which \<open>classList.add\<close> was called, in call order.
\<close>

record scan_state =
  classStore :: "elem \<Rightarrow> string set"
  firstMatch :: "elem option"
  found :: bool
  added :: "elem list"

text \<open>The test of line 55 on one text node.\<close>

definition nodeMatches :: "string \<Rightarrow> text_node \<Rightarrow> bool" where
  "nodeMatches searchText node =
     (nodeValue node \<noteq> [] \<and> includes_str (toLowerCase (nodeValue node)) searchText)"

text \<open>The body of the \<open>while\<close> loop, lines 55-67.\<close>

definition visit :: "string \<Rightarrow> scan_state \<Rightarrow> text_node \<Rightarrow> scan_state" where
  "visit searchText s node =
     (if nodeMatches searchText node then
        (let s1 = s\<lparr>found := True\<rparr>;
             parent = parentNode node
         in if \<not> classList_contains (classStore s1 parent) HIGHLIGHTED then
              (let s2 = s1\<lparr>classStore := (classStore s1)(parent :=
                                classList_add (classStore s1 parent) [HIGHLIGHTED, BG_YELLOW]),
                           added := added s1 @ [parent]\<rparr>
               in if firstMatch s2 = None then s2\<lparr>firstMatch := Some parent\<rparr> else s2)
            else s1)
      else s)"

text \<open>The tree walker's loop over one layer, and \<open>textLayers.forEach\<close>.\<close>

definition walkLayer :: "string \<Rightarrow> scan_state \<Rightarrow> text_node list \<Rightarrow> scan_state" where
  "walkLayer searchText s layer = foldl (visit searchText) s layer"

definition scanLayers :: "string \<Rightarrow> scan_state \<Rightarrow> text_node list list \<Rightarrow> scan_state" where
  "scanLayers searchText s layers = foldl (walkLayer searchText) s layers"

text \<open>A call of \<open>scrollIntoView\<close>: the element and the two options passed.\<close>

record scroll_call =
  target :: elem
  behavior :: string
  block :: string

text \<open>
  What a call of \<open>highlightText\<close> does: the \<open>found\<close> field of the object it returns,
  the container afterwards, the \<open>scrollIntoView\<close> calls made and the \<open>classList.add\<close>
  calls made.
\<close>

record outcome =
  returned :: bool
  containerAfter :: "container option"
  scrolls :: "scroll_call list"
  marks :: "elem list"

definition earlyReturn :: "container option \<Rightarrow> outcome" where
  "earlyReturn cref =
     \<lparr>returned = False, containerAfter = cref, scrolls = [], marks = []\<rparr>"

text \<open>
  \<open>highlightText\<close>, lines 31-80. The first argument is \<open>containerRef.current\<close>
  (\<open>None\<close> for \<open>null\<close>), the second the \<open>text\<close> argument (\<open>None\<close> when it is absent).
\<close>

definition highlightText :: "container option \<Rightarrow> string option \<Rightarrow> outcome" where
  "highlightText cref text =
     (case cref of
        None \<Rightarrow> earlyReturn cref
      | Some d \<Rightarrow>
          (case text of
             None \<Rightarrow> earlyReturn cref
           | Some t \<Rightarrow>
               if t = [] then earlyReturn cref
               else
                 (let cleared = removePrevious (classes d);
                      searchText = toLowerCase t;
                      s = scanLayers searchText
                            \<lparr>classStore = cleared, firstMatch = None, found = False, added = []\<rparr>
                            (textLayers d)
                  in \<lparr>returned = found s,
                      containerAfter = Some (d\<lparr>classes := classStore s\<rparr>),
                      scrolls = (case firstMatch s of
                                   None \<Rightarrow> []
                                 | Some e \<Rightarrow>
                                     [\<lparr>target = e, behavior = ''smooth'', block = ''center''\<rparr>]),
                      marks = added s\<rparr>)))"

text \<open>Reading the document: the text nodes in scan order, and the highlight marking.\<close>

definition textNodes :: "container option \<Rightarrow> text_node list" where
  "textNodes cref = (case cref of None \<Rightarrow> [] | Some d \<Rightarrow> concat (textLayers d))"

definition isHighlighted :: "container option \<Rightarrow> elem \<Rightarrow> bool" where
  "isHighlighted cref e =
     (case cref of None \<Rightarrow> False | Some d \<Rightarrow> classList_contains (classes d e) HIGHLIGHTED)"


text \<open>
  The specification's notion of a match: the node's text has, at some position, a piece
  as long as the search string that equals it up to the case of its letters.
\<close>

definition equalIgnoringCase :: "string \<Rightarrow> string \<Rightarrow> bool" where
  "equalIgnoringCase a b = (toLowerCase a = toLowerCase b)"

definition containsIgnoringCase :: "string \<Rightarrow> string \<Rightarrow> bool" where
  "containsIgnoringCase t S =
     list_ex (\<lambda>i. equalIgnoringCase (take (length S) (drop i t)) S) [0..<Suc (length t)]"

definition matchingNodes :: "container option \<Rightarrow> string \<Rightarrow> text_node list" where
  "matchingNodes cref S =
     filter (\<lambda>n. containsIgnoringCase (nodeValue n) S) (textNodes cref)"

section \<open>Zoom\<close>

text \<open>
  The updaters handed to \<open>setScale\<close> (lines 88-89). The scale is modelled as a real number,
  that is with exact decimal arithmetic; the rounding of IEEE doubles is not modelled.
\<close>

definition zoomIn :: "real \<Rightarrow> real" where
  "zoomIn prev = min (prev + 0.1) 2.0"

definition zoomOut :: "real \<Rightarrow> real" where
  "zoomOut prev = max (prev - 0.1) 0.5"

text \<open>The specification's \<open>clamp(x, lo, hi)\<close>.\<close>

definition spec_clamp :: "real \<Rightarrow> real \<Rightarrow> real \<Rightarrow> real" where
  "spec_clamp x lo hi = max lo (min x hi)"

text \<open>The scales that zoom actions can produce from the initial scale \<open>1.0\<close>.\<close>

inductive reachableScale :: "real \<Rightarrow> bool" where
  initial: "reachableScale 1.0"
| zoomedIn: "reachableScale s \<Longrightarrow> reachableScale (zoomIn s)"
| zoomedOut: "reachableScale s \<Longrightarrow> reachableScale (zoomOut s)"

section \<open>The chat panel\<close>

record citation =
  id_cit :: int
  text_cit :: string
  page_cit :: int

record message =
  id_msg :: string
  content :: string
  isUser :: bool
  timestamp :: nat
  citations :: "citation list option"

text \<open>Decimal rendering of integral numbers, as \<open>toString\<close> and template literals do.\<close>

definition digitChar :: "nat \<Rightarrow> char" where
  "digitChar d = ''0123456789'' ! (d mod 10)"

fun natToString :: "nat \<Rightarrow> string" where
  "natToString n =
     (if n < 10 then [digitChar n] else natToString (n div 10) @ [digitChar (n mod 10)])"

definition numberToString :: "int \<Rightarrow> string" where
  "numberToString i =
     (if i < 0 then CHR ''-'' # natToString (nat (- i)) else natToString (nat i))"

subsection \<open>Citation clicks\<close>

text \<open>
  What \<open>handleCitationClick\<close> reads and writes: \<open>pdfViewerRef.current\<close> (\<open>None\<close> for
  \<open>null\<close>, otherwise the viewer with its \<open>containerRef.current\<close>), the
  \<open>scrollIntoView\<close> calls made in the viewer and the messages passed to \<open>alert\<close>.
\<close>

record panel =
  pdfViewerRef :: "container option option"
  scrolled :: "scroll_call list"
  alerts :: "string list"

definition notFoundMessage :: "citation \<Rightarrow> string" where
  "notFoundMessage c =
     ''The reference '' @ [CHR 0x22] @ text_cit c @ [CHR 0x22] @
     '' could not be found on page '' @ numberToString (page_cit c) @ ''.''"

text \<open>\<open>handleCitationClick\<close> of \<open>src/App.tsx\<close>, lines 97-107.\<close>

definition handleCitationClick :: "panel \<Rightarrow> citation \<Rightarrow> panel" where
  "handleCitationClick w c =
     (case pdfViewerRef w of
        None \<Rightarrow> w
      | Some cref \<Rightarrow>
          (let highlightResult = highlightText cref (Some (text_cit c));
               w1 = w\<lparr>pdfViewerRef := Some (containerAfter highlightResult),
                      scrolled := scrolled w @ scrolls highlightResult\<rparr>
           in if \<not> returned highlightResult
              then w1\<lparr>alerts := alerts w1 @ [notFoundMessage c]\<rparr>
              else w1))"

text \<open>
  The second revision of \<open>App.tsx\<close> (\<open>unnamed/part_001\<close>, lines 73-86) keeps a
  \<open>currentPage\<close> state and sets it when the text was found.
\<close>

record panel_001 = panel +
  currentPage :: int

definition handleCitationClick_001 :: "panel_001 \<Rightarrow> citation \<Rightarrow> panel_001" where
  "handleCitationClick_001 w c =
     (case pdfViewerRef w of
        None \<Rightarrow> w
      | Some cref \<Rightarrow>
          (let highlightResult = highlightText cref (Some (text_cit c));
               w1 = w\<lparr>pdfViewerRef := Some (containerAfter highlightResult),
                      scrolled := scrolled w @ scrolls highlightResult\<rparr>
           in if returned highlightResult
              then w1\<lparr>currentPage := page_cit c\<rparr>
              else w1\<lparr>alerts := alerts w1 @ [notFoundMessage c]\<rparr>))"

subsection \<open>Citation markers\<close>

definition isDigit :: "char \<Rightarrow> bool" where
  "isDigit c = (c \<in> set ''0123456789'')"

text \<open>
  The regular expression \<open>\[\d+\]\<close> tried at the start of a string: the digits matched
  and the rest of the string after the closing bracket.
\<close>

definition matchMarker :: "string \<Rightarrow> (string \<times> string) option" where
  "matchMarker s =
     (case s of
        [] \<Rightarrow> None
      | c # r \<Rightarrow>
          if c \<noteq> CHR ''['' then None
          else (let ds = takeWhile isDigit r; r' = dropWhile isDigit r
                in if ds = [] then None
                   else (case r' of
                           [] \<Rightarrow> None
                         | b # rest \<Rightarrow> if b = CHR '']'' then Some (ds, rest) else None)))"

definition markerToken :: "string \<Rightarrow> string" where
  "markerToken ds = ''['' @ ds @ '']''"

text \<open>
  \<open>content.split(/(\[\d+\])/g)\<close>: the pieces between the matches, with each match (the
  capture group) between them. \<open>acc\<close> is the piece collected since the last match.
\<close>

function splitMarkers :: "string \<Rightarrow> string \<Rightarrow> string list" where
  "splitMarkers acc [] = [acc]"
| "splitMarkers acc (c # cs) =
     (case matchMarker (c # cs) of
        Some (ds, rest) \<Rightarrow> acc # markerToken ds # splitMarkers [] rest
      | None \<Rightarrow> splitMarkers (acc @ [c]) cs)"
  by pat_completeness auto
termination
proof (relation "measure (\<lambda>(acc, s). length s)")
  show "wf (measure (\<lambda>(acc, s). length s))" by simp
next
  fix acc :: string and c cs x2 x y
  assume "matchMarker (c # cs) = Some x2" "(x, y) = x2"
  then have "dropWhile isDigit cs = CHR '']'' # y"
    by (auto simp: matchMarker_def Let_def split: if_splits list.splits)
  then have "length y < length (dropWhile isDigit cs)" by simp
  also have "\<dots> \<le> length cs" by (rule length_dropWhile_le)
  finally show "(([], y), (acc, c # cs)) \<in> measure (\<lambda>(acc, s). length s)" by simp
next
  fix acc :: string and c cs
  show "((acc @ [c], cs), (acc, c # cs)) \<in> measure (\<lambda>(acc, s). length s)" by simp
qed

text \<open>\<open>part.match(/\[(\d+)\]/)\<close>: the digits of the first match anywhere in the part.\<close>

fun searchMarker :: "string \<Rightarrow> string option" where
  "searchMarker [] = None"
| "searchMarker (c # cs) =
     (case matchMarker (c # cs) of
        Some (ds, rest) \<Rightarrow> Some ds
      | None \<Rightarrow> searchMarker cs)"

definition digitValue :: "char \<Rightarrow> nat" where
  "digitValue c = length (takeWhile (\<lambda>d. d \<noteq> c) ''0123456789'')"

text \<open>\<open>parseInt(digits, 10)\<close> on a string of decimal digits.\<close>

definition parseInt :: "string \<Rightarrow> int" where
  "parseInt ds = int (foldl (\<lambda>a c. 10 * a + digitValue c) 0 ds)"

text \<open>
  What \<open>formatMessageContent\<close> returns: the content string itself, or an array whose
  entries are strings and \<open>span\<close> elements. A \<open>span\<close> has its key, its text and the
  citation that its click handler passes to \<open>handleCitationClick\<close>.
\<close>

datatype rendered = PlainText string | CitationSpan nat string citation

datatype formatted = Whole string | Parts "rendered list"

text \<open>The callback of \<open>map\<close>, lines 114-132.\<close>

definition formatPart :: "citation list \<Rightarrow> nat \<times> string \<Rightarrow> rendered" where
  "formatPart cs ip =
     (case ip of (index, part) \<Rightarrow>
        (case searchMarker part of
           Some ds \<Rightarrow>
             (case find (\<lambda>c. id_cit c = parseInt ds) cs of
                Some citation \<Rightarrow> CitationSpan index part citation
              | None \<Rightarrow> PlainText part)
         | None \<Rightarrow> PlainText part))"

text \<open>\<open>formatMessageContent\<close>, lines 110-133 (the same in both revisions).\<close>

definition formatMessageContent :: "string \<Rightarrow> citation list option \<Rightarrow> formatted" where
  "formatMessageContent cont cits =
     (case cits of
        None \<Rightarrow> Whole cont
      | Some cs \<Rightarrow>
          if cs = [] then Whole cont
          else Parts (map (formatPart cs) (enumerate 0 (splitMarkers [] cont))))"

subsection \<open>Sending a message\<close>

text \<open>
  \<open>String.prototype.trim\<close> removes white space and line terminators from both ends.
  Below \<open>U+0100\<close> these are tab, line feed, vertical tab, form feed, carriage return,
  space and the no-break space \<open>0xA0\<close>.
\<close>

definition isWhiteSpace :: "char \<Rightarrow> bool" where
  "isWhiteSpace c =
     (c \<in> {CHR 0x09, CHR 0x0A, CHR 0x0B, CHR 0x0C, CHR 0x0D, CHR '' '', CHR 0xA0})"

definition trim :: "string \<Rightarrow> string" where
  "trim s = rev (dropWhile isWhiteSpace (rev (dropWhile isWhiteSpace s)))"

text \<open>
  The state of \<open>App\<close> that \<open>handleSendMessage\<close> touches: the transcript, the input field
  and the delays of the callbacks handed to \<open>setTimeout\<close> that have not fired yet. Each
  such callback is \<open>delayedReply\<close>.
\<close>

record app =
  messages :: "message list"
  inputMessage :: string
  timeouts :: "nat list"

record form_event =
  defaultPrevented :: bool

text \<open>
  \<open>handleSendMessage\<close>, lines 136-165 (the same in both revisions). \<open>dateNow\<close> is what
  \<open>Date.now()\<close> returns and \<open>newDate\<close> the time of \<open>new Date()\<close>.
\<close>

definition handleSendMessage :: "nat \<Rightarrow> nat \<Rightarrow> form_event \<times> app \<Rightarrow> form_event \<times> app" where
  "handleSendMessage dateNow newDate ea =
     (case ea of (e, a) \<Rightarrow>
        (let e1 = e\<lparr>defaultPrevented := True\<rparr>
         in if trim (inputMessage a) = [] then (e1, a)
            else
              (let newMessage = \<lparr>id_msg = natToString dateNow, content = inputMessage a,
                                 isUser = True, timestamp = newDate, citations = None\<rparr>
               in (e1, a\<lparr>messages := messages a @ [newMessage],
                         inputMessage := [],
                         timeouts := timeouts a @ [1000]\<rparr>))))"

text \<open>The callback of \<open>setTimeout\<close>, lines 152-164.\<close>

definition delayedReply :: "nat \<Rightarrow> nat \<Rightarrow> app \<Rightarrow> app" where
  "delayedReply dateNow newDate a =
     (let response = \<lparr>id_msg = natToString (dateNow + 1),
                       content = ''This is a sample response with a citation [1].'',
                       isUser = False, timestamp = newDate,
                       citations = Some [\<lparr>id_cit = 1, text_cit = ''Sample citation text'',
                                          page_cit = 1\<rparr>]\<rparr>
      in a\<lparr>messages := messages a @ [response]\<rparr>)"

section \<open>Notions used in the proofs\<close>

text \<open>
  \<open>hasMark\<close> reads the highlight marking in a class store. \<open>sameMarks\<close> relates two scan
  states that agree on everything the scan looks at. \<open>clearedContainer\<close> is the container
  with lines 35-38 applied; \<open>initialScan\<close> and \<open>finalScan\<close> are the scan state before the
  first and after the last text node.
\<close>

definition hasMark :: "(elem \<Rightarrow> string set) \<Rightarrow> elem \<Rightarrow> bool" where
  "hasMark cls e = classList_contains (cls e) HIGHLIGHTED"



definition initialScan :: "container \<Rightarrow> scan_state" where
  "initialScan d = \<lparr>classStore = removePrevious (classes d), firstMatch = None, found = False, added = []\<rparr>"

definition finalScan :: "container \<Rightarrow> string \<Rightarrow> scan_state" where
  "finalScan d S = foldl (visit (toLowerCase S)) (initialScan d) (concat (textLayers d))"

text \<open>
  \<open>located\<close> is the call of \<open>highlightText\<close> that a click on a citation makes, and
  \<open>userMessage\<close> the message that \<open>handleSendMessage\<close> builds. \<open>validDigits\<close> are the
  strings that \<open>\d+\<close> matches in full. \<open>resolveMarker\<close> is what the \<open>map\<close> callback
  makes of a marker token, \<open>renderFrom\<close> the rendering of a text whose first part has
  index \<open>k\<close>. \<open>noMarkerIn\<close>, \<open>isMarkerToken\<close> and \<open>wellSplit\<close> describe the array that
  \<open>split\<close> returns: pieces without a marker, with one marker token between neighbours.
\<close>

definition located :: "container option \<Rightarrow> citation \<Rightarrow> outcome" where
  "located cref c = highlightText cref (Some (text_cit c))"

definition userMessage :: "nat \<Rightarrow> nat \<Rightarrow> string \<Rightarrow> message" where
  "userMessage dateNow newDate txt =
     \<lparr>id_msg = natToString dateNow, content = txt, isUser = True, timestamp = newDate,
      citations = None\<rparr>"

definition validDigits :: "string \<Rightarrow> bool" where
  "validDigits ds = (ds \<noteq> [] \<and> (\<forall>c\<in>set ds. isDigit c))"

definition resolveMarker :: "citation list \<Rightarrow> nat \<Rightarrow> string \<Rightarrow> rendered" where
  "resolveMarker cs k ds =
     (case find (\<lambda>c. id_cit c = parseInt ds) cs of
        Some citation \<Rightarrow> CitationSpan k (markerToken ds) citation
      | None \<Rightarrow> PlainText (markerToken ds))"

definition renderFrom :: "citation list \<Rightarrow> nat \<Rightarrow> string \<Rightarrow> rendered list" where
  "renderFrom cs k s = map (formatPart cs) (enumerate k (splitMarkers [] s))"

definition noMarkerIn :: "string \<Rightarrow> string \<Rightarrow> bool" where
  "noMarkerIn acc s = (\<forall>i<length acc. matchMarker (drop i acc @ s) = None)"

definition isMarkerToken :: "string \<Rightarrow> bool" where
  "isMarkerToken m = (case matchMarker m of Some (ds, rest) \<Rightarrow> rest = [] | None \<Rightarrow> False)"

fun wellSplit :: "string list \<Rightarrow> bool" where
  "wellSplit [] = False"
| "wellSplit [t] = (searchMarker t = None)"
| "wellSplit (t # m # rest) = (searchMarker t = None \<and> isMarkerToken m \<and> wellSplit rest)"

section \<open>Example documents\<close>



definition pageAccent :: container where
  "pageAccent =
     \<lparr>classes = (\<lambda>e. {}),
      textLayers = [[\<lparr>nodeValue = CHR 0xC9 # ''BITDA'', parentNode = 1\<rparr>]]\<rparr>"

definition accentSearch :: string where
  "accentSearch = CHR 0xE9 # ''bitda''"

definition twoPages :: container where
  "twoPages =
     \<lparr>classes = (\<lambda>e. if e = 1 then {HIGHLIGHTED, BG_YELLOW} else {}),
      textLayers = [[\<lparr>nodeValue = ''Revenue grew'', parentNode = 1\<rparr>,
                     \<lparr>nodeValue = ''EBITDA increased'', parentNode = 2\<rparr>],
                    [\<lparr>nodeValue = ''ebitda margin'', parentNode = 3\<rparr>]]\<rparr>"

text \<open>
  Panels whose viewer shows \<open>twoPages\<close>, citations whose text is and is not in that
  document, the two citations of a sample message, and two states of the send form.
\<close>

definition clickPanel :: panel where
  "clickPanel = \<lparr>pdfViewerRef = Some (Some twoPages), scrolled = [], alerts = []\<rparr>"

definition clickPanel_001 :: panel_001 where
  "clickPanel_001 =
     \<lparr>pdfViewerRef = Some (Some twoPages), scrolled = [], alerts = [], currentPage = 1\<rparr>"

definition citeEbitda :: citation where
  "citeEbitda = \<lparr>id_cit = 1, text_cit = ''ebitda'', page_cit = 5\<rparr>"

definition citeDividend :: citation where
  "citeDividend = \<lparr>id_cit = 2, text_cit = ''dividend'', page_cit = 5\<rparr>"

definition citeA :: citation where
  "citeA = \<lparr>id_cit = 1, text_cit = ''Maersk results continued to improve'', page_cit = 3\<rparr>"

definition citeB :: citation where
  "citeB = \<lparr>id_cit = 2, text_cit = ''EBITDA increased to USD 2.3 bn'', page_cit = 5\<rparr>"

definition blankInput :: app where
  "blankInput = \<lparr>messages = [], inputMessage = ''  '' @ [CHR 0x09, CHR 0xA0], timeouts = []\<rparr>"

definition paddedInput :: app where
  "paddedInput = \<lparr>messages = [], inputMessage = '' hi '', timeouts = []\<rparr>"

section \<open>Properties of the search\<close>

subsection \<open>Strings\<close>

lemma startsWith_take: "startsWith s t = (take (length t) s = t)"
  by (induction s t rule: startsWith.induct) auto

lemma includes_str_positions:
  "includes_str s t = (\<exists>i\<le>length s. take (length t) (drop i s) = t)"
proof (induction s)
  case Nil
  then show ?case by auto
next
  case (Cons a s)
  have "(\<exists>i\<le>length (a # s). take (length t) (drop i (a # s)) = t) =
        (take (length t) (a # s) = t \<or> (\<exists>i\<le>length s. take (length t) (drop i s) = t))"
  proof
    assume "\<exists>i\<le>length (a # s). take (length t) (drop i (a # s)) = t"
    then obtain i where i: "i \<le> length (a # s)" "take (length t) (drop i (a # s)) = t" by blast
    show "take (length t) (a # s) = t \<or> (\<exists>i\<le>length s. take (length t) (drop i s) = t)"
    proof (cases i)
      case 0
      with i show ?thesis by simp
    next
      case (Suc j)
      with i have "j \<le> length s" "take (length t) (drop j s) = t" by simp_all
      then show ?thesis by blast
    qed
  next
    assume "take (length t) (a # s) = t \<or> (\<exists>i\<le>length s. take (length t) (drop i s) = t)"
    then show "\<exists>i\<le>length (a # s). take (length t) (drop i (a # s)) = t"
    proof
      assume "take (length t) (a # s) = t"
      then have "take (length t) (drop 0 (a # s)) = t" by simp
      then show ?thesis by blast
    next
      assume "\<exists>i\<le>length s. take (length t) (drop i s) = t"
      then obtain i where "i \<le> length s" "take (length t) (drop i s) = t" by blast
      then have "Suc i \<le> length (a # s)" "take (length t) (drop (Suc i) (a # s)) = t" by simp_all
      then show ?thesis by blast
    qed
  qed
  with Cons show ?case by (simp add: startsWith_take)
qed

lemma length_toLowerCase: "length (toLowerCase s) = length s"
  by (simp add: toLowerCase_def)

lemma containsIgnoringCase_code:
  "containsIgnoringCase t S = includes_str (toLowerCase t) (toLowerCase S)"
proof -
  have "containsIgnoringCase t S =
        (\<exists>i\<le>length t. toLowerCase (take (length S) (drop i t)) = toLowerCase S)"
    unfolding containsIgnoringCase_def list_ex_iff equalIgnoringCase_def
    by (auto simp: le_less)
  also have "\<dots> = (\<exists>i\<le>length (toLowerCase t).
                 take (length (toLowerCase S)) (drop i (toLowerCase t)) = toLowerCase S)"
    by (simp add: toLowerCase_def take_map drop_map)
  finally show ?thesis by (simp add: includes_str_positions)
qed

lemma containsIgnoringCase_nonempty:
  "S \<noteq> [] \<Longrightarrow> containsIgnoringCase t S \<Longrightarrow> t \<noteq> []"
  by (auto simp: containsIgnoringCase_def list_ex_iff equalIgnoringCase_def toLowerCase_def)

lemma nodeMatches_iff:
  "S \<noteq> [] \<Longrightarrow> nodeMatches (toLowerCase S) n = containsIgnoringCase (nodeValue n) S"
  using containsIgnoringCase_nonempty[of S "nodeValue n"]
  by (auto simp: nodeMatches_def containsIgnoringCase_code)

subsection \<open>The scan\<close>

lemma scanLayers_concat: "scanLayers st s ls = foldl (visit st) s (concat ls)"
  by (induction ls arbitrary: s) (simp_all add: scanLayers_def walkLayer_def)

lemma visit_found: "found (visit st s n) = (found s \<or> nodeMatches st n)"
  by (simp add: visit_def Let_def)

lemma scan_found:
  "found (foldl (visit st) s ns) = (found s \<or> (\<exists>n\<in>set ns. nodeMatches st n))"
  by (induction ns arbitrary: s) (auto simp: visit_found)







lemma visit_firstMatch_head:
  "firstMatch s = (case added s of [] \<Rightarrow> None | e # _ \<Rightarrow> Some e) \<Longrightarrow>
   firstMatch (visit st s n) = (case added (visit st s n) of [] \<Rightarrow> None | e # _ \<Rightarrow> Some e)"
  by (auto simp: visit_def Let_def split: list.splits)

lemma scan_firstMatch_head:
  "firstMatch s = (case added s of [] \<Rightarrow> None | e # _ \<Rightarrow> Some e) \<Longrightarrow>
   firstMatch (foldl (visit st) s ns) =
     (case added (foldl (visit st) s ns) of [] \<Rightarrow> None | e # _ \<Rightarrow> Some e)"
  by (induction ns arbitrary: s) (auto simp: visit_firstMatch_head)

lemma visit_added_grows: "\<exists>es. added (visit st s n) = added s @ es"
  by (auto simp: visit_def Let_def)

lemma scan_added_grows: "\<exists>es. added (foldl (visit st) s ns) = added s @ es"
proof (induction ns arbitrary: s)
  case Nil
  then show ?case by simp
next
  case (Cons n ns)
  obtain es1 where "added (visit st s n) = added s @ es1"
    using visit_added_grows by blast
  moreover obtain es2 where
    "added (foldl (visit st) (visit st s n) ns) = added (visit st s n) @ es2"
    using Cons.IH by blast
  ultimately show ?case by simp
qed

lemma scan_no_match: "\<forall>n\<in>set ns. \<not> nodeMatches st n \<Longrightarrow> foldl (visit st) s ns = s"
  by (induction ns arbitrary: s) (auto simp: visit_def)

lemma scan_firstMatch:
  assumes "\<forall>e. \<not> hasMark (classStore s) e" "added s = []" "firstMatch s = None"
  shows "firstMatch (foldl (visit st) s ns) =
           (case filter (nodeMatches st) ns of [] \<Rightarrow> None | n # _ \<Rightarrow> Some (parentNode n))"
proof (cases "filter (nodeMatches st) ns")
  case Nil
  then have "\<forall>n\<in>set ns. \<not> nodeMatches st n" by (simp add: filter_empty_conv)
  then show ?thesis using Nil assms by (simp add: scan_no_match)
next
  case (Cons m ms)
  then obtain pre post where ns: "ns = pre @ m # post"
    and pre: "\<forall>n\<in>set pre. \<not> nodeMatches st n" and m: "nodeMatches st m"
    by (auto simp: filter_eq_Cons_iff)
  let ?s1 = "visit st s m"
  have a1: "added ?s1 = [parentNode m]" and f1: "firstMatch ?s1 = Some (parentNode m)"
    using assms m by (simp_all add: visit_def Let_def hasMark_def)
  then have "firstMatch ?s1 = (case added ?s1 of [] \<Rightarrow> None | e # _ \<Rightarrow> Some e)" by simp
  then have fm: "firstMatch (foldl (visit st) ?s1 post) =
      (case added (foldl (visit st) ?s1 post) of [] \<Rightarrow> None | e # _ \<Rightarrow> Some e)"
    by (rule scan_firstMatch_head)
  obtain es where "added (foldl (visit st) ?s1 post) = added ?s1 @ es"
    using scan_added_grows by blast
  with a1 fm have "firstMatch (foldl (visit st) ?s1 post) = Some (parentNode m)" by simp
  then show ?thesis using ns pre Cons by (simp add: scan_no_match)
qed



lemma removePrevious_clears: "\<not> hasMark (removePrevious cls) e"
  by (simp add: removePrevious_def hasMark_def classList_contains_def classList_remove_def)

subsection \<open>highlightText\<close>

lemma toLowerCase_nonempty: "toLowerCase S = [] \<longleftrightarrow> S = []"
  by (simp add: toLowerCase_def)

lemma highlightText_Some:
  "S \<noteq> [] \<Longrightarrow> highlightText (Some d) (Some S) =
     \<lparr>returned = found (finalScan d S),
      containerAfter = Some (d\<lparr>classes := classStore (finalScan d S)\<rparr>),
      scrolls = (case firstMatch (finalScan d S) of
                   None \<Rightarrow> []
                 | Some e \<Rightarrow> [\<lparr>target = e, behavior = ''smooth'', block = ''center''\<rparr>]),
      marks = added (finalScan d S)\<rparr>"
  by (simp add: highlightText_def Let_def finalScan_def initialScan_def scanLayers_concat)

lemma highlightText_None: "highlightText None t = earlyReturn None"
  by (simp add: highlightText_def)

lemma filter_matching:
  "S \<noteq> [] \<Longrightarrow> filter (nodeMatches (toLowerCase S)) ns =
     filter (\<lambda>n. containsIgnoringCase (nodeValue n) S) ns"
  by (rule filter_cong) (simp_all add: nodeMatches_iff)

lemma finalScan_found:
  "S \<noteq> [] \<Longrightarrow> found (finalScan d S) = (matchingNodes (Some d) S \<noteq> [])"
  by (auto simp: finalScan_def scan_found initialScan_def matchingNodes_def textNodes_def
        nodeMatches_iff filter_empty_conv)




lemma finalScan_firstMatch:
  "S \<noteq> [] \<Longrightarrow> firstMatch (finalScan d S) =
     (case matchingNodes (Some d) S of [] \<Rightarrow> None | n # _ \<Rightarrow> Some (parentNode n))"
  unfolding finalScan_def matchingNodes_def textNodes_def
  by (simp add: scan_firstMatch initialScan_def removePrevious_clears filter_matching)




lemma twoPages_ebitda:
  "matchingNodes (Some twoPages) ''ebitda'' =
     [\<lparr>nodeValue = ''EBITDA increased'', parentNode = 2\<rparr>,
      \<lparr>nodeValue = ''ebitda margin'', parentNode = 3\<rparr>]"
  by code_simp

lemma twoPages_dividend: "matchingNodes (Some twoPages) ''dividend'' = []"
  by code_simp


lemma accentSearch_nonempty: "accentSearch \<noteq> []"
  by (simp add: accentSearch_def)

lemma pageAccent_match:
  "matchingNodes (Some pageAccent) accentSearch =
     [\<lparr>nodeValue = CHR 0xC9 # ''BITDA'', parentNode = 1\<rparr>]"
  by code_simp







subsection \<open>Search result (C1)\<close>



subsection \<open>Marked elements (C2)\<close>




subsection \<open>Successive searches (C3)\<close>



subsection \<open>Scrolling (C4)\<close>

text \<open>
  C4: for every non-empty search string, \<open>highlightText\<close> makes one \<open>scrollIntoView\<close> call,
  smooth and centred, on the element of the first matching text node in scan order (page
  order, then document order inside the page), and none when no node matches.
\<close>

theorem C4_scroll_first_match:
  assumes "S \<noteq> []"
  shows "scrolls (highlightText cref (Some S)) =
           (case matchingNodes cref S of
              [] \<Rightarrow> []
            | n # _ \<Rightarrow> [\<lparr>target = parentNode n, behavior = ''smooth'', block = ''center''\<rparr>])"
proof (cases cref)
  case None
  then show ?thesis
    by (simp add: highlightText_None earlyReturn_def textNodes_def matchingNodes_def)
next
  case (Some d)
  then show ?thesis using assms
    by (simp add: highlightText_Some finalScan_firstMatch split: list.splits)
qed

text \<open>
  C4 at \<open>twoPages\<close>: "ebitda" matches on both pages and scrolls to element 2 on the first
  page; "dividend" scrolls nowhere. At \<open>pageAccent\<close> the search with e acute scrolls to
  the element of the text with E acute.
\<close>

theorem C4_witness:
  "''ebitda'' \<noteq> [] \<and>
   scrolls (highlightText (Some twoPages) (Some ''ebitda'')) =
     [\<lparr>target = 2, behavior = ''smooth'', block = ''center''\<rparr>] \<and>
   scrolls (highlightText (Some twoPages) (Some ''dividend'')) = [] \<and>
   scrolls (highlightText (Some pageAccent) (Some accentSearch)) =
     [\<lparr>target = 1, behavior = ''smooth'', block = ''center''\<rparr>]"
  using C4_scroll_first_match[of "''ebitda''" "Some twoPages"]
        C4_scroll_first_match[of "''dividend''" "Some twoPages"]
        C4_scroll_first_match[OF accentSearch_nonempty, of "Some pageAccent"]
  by (simp add: twoPages_ebitda twoPages_dividend pageAccent_match)

subsection \<open>Empty or absent search text (C9)\<close>

text \<open>
  C9: with an empty or absent string \<open>highlightText\<close> returns \<open>found = False\<close>, leaves the
  container and with it every highlight marking as it was, and makes no \<open>scrollIntoView\<close>
  and no \<open>classList.add\<close> call.
\<close>

theorem C9_empty_text_is_noop:
  assumes "text = None \<or> text = Some []"
  shows "highlightText cref text =
           \<lparr>returned = False, containerAfter = cref, scrolls = [], marks = []\<rparr>"
  using assms by (auto simp: highlightText_def earlyReturn_def split: option.splits)

text \<open>
  C9 at \<open>twoPages\<close>: the empty and the absent string leave element 1 highlighted.
\<close>

theorem C9_witness:
  "highlightText (Some twoPages) (Some []) =
     \<lparr>returned = False, containerAfter = Some twoPages, scrolls = [], marks = []\<rparr> \<and>
   highlightText (Some twoPages) None =
     \<lparr>returned = False, containerAfter = Some twoPages, scrolls = [], marks = []\<rparr> \<and>
   isHighlighted (containerAfter (highlightText (Some twoPages) (Some []))) 1"
  using C9_empty_text_is_noop[of "Some []" "Some twoPages"]
        C9_empty_text_is_noop[of None "Some twoPages"]
  by (simp add: isHighlighted_def twoPages_def classList_contains_def)

section \<open>Properties of zoom\<close>

lemma reachableScale_range: "reachableScale s \<Longrightarrow> 0.5 \<le> s \<and> s \<le> 2.0"
  by (induction rule: reachableScale.induct) (auto simp: zoomIn_def zoomOut_def)

subsection \<open>Six steps (C7)\<close>

text \<open>
  C7 as stated fails: six zoom-in steps from \<open>1.0\<close> end at \<open>1.6\<close>, below the upper bound,
  not at \<open>2.0\<close>.
\<close>

theorem C7_counterexample:
  "(zoomIn ^^ 6) 1.0 = 1.6 \<and> (zoomIn ^^ 6) 1.0 \<noteq> 2.0"
  by (simp add: zoomIn_def numeral_eq_Suc)

text \<open>
  C7, amended: starting from \<open>1.0\<close>, six zoom-in steps give \<open>1.6\<close>; it takes ten to reach
  \<open>2.0\<close>, where the next step would pass the bound and is clamped. Six zoom-out steps from
  \<open>1.0\<close> give \<open>0.5\<close>: the sixth would reach \<open>0.4\<close> and is clamped.
\<close>

theorem C7_six_zoom_steps:
  "(zoomIn ^^ 6) 1.0 = 1.6 \<and>
   (zoomIn ^^ 10) 1.0 = 2.0 \<and>
   zoomIn ((zoomIn ^^ 10) 1.0) = 2.0 \<and> (zoomIn ^^ 10) 1.0 + 0.1 > 2.0 \<and>
   (zoomOut ^^ 6) 1.0 = 0.5 \<and>
   (zoomOut ^^ 5) 1.0 - 0.1 = 0.4 \<and> (zoomOut ^^ 6) 1.0 \<noteq> 0.4"
  by (simp add: zoomIn_def zoomOut_def numeral_eq_Suc)

subsection \<open>Zoom steps and the clamp (C8)\<close>

text \<open>
  C8: the scale starts at \<open>1.0\<close> and changes only by zoom steps, so every value it takes is
  reachable. On every reachable scale, and on every scale in \<open>[0.5, 2.0]\<close>, zoom-in is
  \<open>clamp(scale + 0.1, 0.5, 2.0)\<close> and zoom-out is \<open>clamp(scale - 0.1, 0.5, 2.0)\<close>. A scale
  in \<open>[0.5, 2.0]\<close> stays there under both steps, and every reachable scale is in that range.
\<close>

theorem C8_zoom_steps_are_clamped:
  "(reachableScale s \<longrightarrow>
      zoomIn s = spec_clamp (s + 0.1) 0.5 2.0 \<and>
      zoomOut s = spec_clamp (s - 0.1) 0.5 2.0 \<and>
      0.5 \<le> s \<and> s \<le> 2.0) \<and>
   (0.5 \<le> s \<and> s \<le> 2.0 \<longrightarrow>
      zoomIn s = spec_clamp (s + 0.1) 0.5 2.0 \<and>
      zoomOut s = spec_clamp (s - 0.1) 0.5 2.0 \<and>
      0.5 \<le> zoomIn s \<and> zoomIn s \<le> 2.0 \<and> 0.5 \<le> zoomOut s \<and> zoomOut s \<le> 2.0)"
  using reachableScale_range[of s]
  by (auto simp: zoomIn_def zoomOut_def spec_clamp_def)

text \<open>
  C8 at the reachable scale \<open>zoomOut 1.0\<close>, at scale \<open>1.95\<close>, where zoom-in is clamped to
  \<open>2.0\<close>, and at scale \<open>0.55\<close>, where zoom-out is clamped to \<open>0.5\<close>.
\<close>

theorem C8_witness:
  "reachableScale (zoomOut 1.0) \<and> zoomOut 1.0 = 0.9 \<and>
   zoomIn (zoomOut 1.0) = spec_clamp (zoomOut 1.0 + 0.1) 0.5 2.0 \<and>
   zoomOut (zoomOut 1.0) = spec_clamp (zoomOut 1.0 - 0.1) 0.5 2.0 \<and>
   (0.5::real) \<le> 1.95 \<and> (1.95::real) \<le> 2.0 \<and>
   zoomIn 1.95 = spec_clamp (1.95 + 0.1) 0.5 2.0 \<and> zoomIn 1.95 = 2.0 \<and>
   (0.5::real) \<le> 0.55 \<and> (0.55::real) \<le> 2.0 \<and>
   zoomOut 0.55 = spec_clamp (0.55 - 0.1) 0.5 2.0 \<and> zoomOut 0.55 = 0.5"
  using C8_zoom_steps_are_clamped[of "zoomOut 1.0"] C8_zoom_steps_are_clamped[of "1.95"]
        C8_zoom_steps_are_clamped[of "0.55"]
        reachableScale.zoomedOut[OF reachableScale.initial]
  by (simp add: zoomIn_def zoomOut_def)

section \<open>Properties of the chat panel\<close>

subsection \<open>Citation clicks (C5)\<close>

lemma includes_str_middle: "includes_str (a @ t @ b) t"
proof -
  have "length a \<le> length (a @ t @ b)" "take (length t) (drop (length a) (a @ t @ b)) = t"
    by simp_all
  then show ?thesis unfolding includes_str_positions by blast
qed

lemma notFoundMessage_names_text: "includes_str (notFoundMessage c) (text_cit c)"
proof -
  have "notFoundMessage c = (''The reference '' @ [CHR 0x22]) @ text_cit c @
          ([CHR 0x22] @ '' could not be found on page '' @ numberToString (page_cit c) @ ''.'')"
    by (simp add: notFoundMessage_def)
  then show ?thesis by (simp only: includes_str_middle)
qed

lemma notFoundMessage_names_page:
  "includes_str (notFoundMessage c) (numberToString (page_cit c))"
proof -
  have "notFoundMessage c = (''The reference '' @ [CHR 0x22] @ text_cit c @ [CHR 0x22] @
          '' could not be found on page '') @ numberToString (page_cit c) @ ''.''"
    by (simp add: notFoundMessage_def)
  then show ?thesis by (simp only: includes_str_middle)
qed

lemma returned_ebitda: "returned (highlightText (Some twoPages) (Some ''ebitda''))"
  using finalScan_found[of "''ebitda''" twoPages]
  by (simp add: highlightText_Some twoPages_ebitda)

lemma returned_dividend: "\<not> returned (highlightText (Some twoPages) (Some ''dividend''))"
  using finalScan_found[of "''dividend''" twoPages]
  by (simp add: highlightText_Some twoPages_dividend)

text \<open>
  C5 as stated fails for the revision of \<open>unnamed/part_001\<close>: when the text is found, the
  page hint of the citation becomes the \<open>currentPage\<close> state.
\<close>

theorem C5_counterexample:
  "returned (highlightText (Some twoPages) (Some (text_cit citeEbitda))) \<and>
   currentPage clickPanel_001 = 1 \<and>
   currentPage (handleCitationClick_001 clickPanel_001 citeEbitda) = 5 \<and>
   currentPage (handleCitationClick_001 clickPanel_001 (citeEbitda\<lparr>page_cit := 7\<rparr>)) = 7"
  using returned_ebitda
  by (simp add: handleCitationClick_001_def clickPanel_001_def citeEbitda_def Let_def)

text \<open>
  C5, amended: with a viewer mounted, a click on a citation calls \<open>highlightText\<close> with the
  citation's text, in both revisions; without one it does nothing. When the call returns
  \<open>found = False\<close>, exactly one message is passed to \<open>alert\<close>, and it contains the
  citation's text and its page hint; when it returns \<open>found = True\<close>, none is. In
  \<open>src/App.tsx\<close> the page hint is used for nothing else: on success the outcome of the click
  does not depend on it. The revision of \<open>unnamed/part_001\<close> stores the page hint in
  \<open>currentPage\<close> on success and leaves \<open>currentPage\<close> alone on failure; in both revisions
  the viewer's document and scrolling are those of \<open>highlightText\<close> alone.
\<close>

theorem C5_citation_click:
  "(pdfViewerRef w = None \<longrightarrow> handleCitationClick w c = w) \<and>
   (pdfViewerRef w = Some cref \<longrightarrow>
      pdfViewerRef (handleCitationClick w c) = Some (containerAfter (located cref c)) \<and>
      scrolled (handleCitationClick w c) = scrolled w @ scrolls (located cref c) \<and>
      (\<not> returned (located cref c) \<longrightarrow>
         alerts (handleCitationClick w c) = alerts w @ [notFoundMessage c] \<and>
         includes_str (notFoundMessage c) (text_cit c) \<and>
         includes_str (notFoundMessage c) (numberToString (page_cit c))) \<and>
      (returned (located cref c) \<longrightarrow>
         alerts (handleCitationClick w c) = alerts w \<and>
         handleCitationClick w (c\<lparr>page_cit := p\<rparr>) = handleCitationClick w c)) \<and>
   (pdfViewerRef v = None \<longrightarrow> handleCitationClick_001 v c = v) \<and>
   (pdfViewerRef v = Some cref \<longrightarrow>
      pdfViewerRef (handleCitationClick_001 v c) = Some (containerAfter (located cref c)) \<and>
      scrolled (handleCitationClick_001 v c) = scrolled v @ scrolls (located cref c) \<and>
      (\<not> returned (located cref c) \<longrightarrow>
         alerts (handleCitationClick_001 v c) = alerts v @ [notFoundMessage c] \<and>
         currentPage (handleCitationClick_001 v c) = currentPage v) \<and>
      (returned (located cref c) \<longrightarrow>
         alerts (handleCitationClick_001 v c) = alerts v \<and>
         currentPage (handleCitationClick_001 v c) = page_cit c))"
  by (auto simp: handleCitationClick_def handleCitationClick_001_def located_def Let_def
        notFoundMessage_names_text notFoundMessage_names_page)

text \<open>
  C5 (amended) at \<open>twoPages\<close>: "ebitda" is found and raises no alert, "dividend" is not
  found and raises the alert that names it and page 5.
\<close>

theorem C5_witness:
  "pdfViewerRef clickPanel = Some (Some twoPages) \<and>
   pdfViewerRef clickPanel_001 = Some (Some twoPages) \<and>
   returned (located (Some twoPages) citeEbitda) \<and>
   \<not> returned (located (Some twoPages) citeDividend) \<and>
   alerts (handleCitationClick clickPanel citeEbitda) = [] \<and>
   alerts (handleCitationClick clickPanel citeDividend) =
     [''The reference '' @ [CHR 0x22] @ ''dividend'' @ [CHR 0x22] @
      '' could not be found on page 5.''] \<and>
   handleCitationClick clickPanel (citeEbitda\<lparr>page_cit := 7\<rparr>) =
     handleCitationClick clickPanel citeEbitda \<and>
   alerts (handleCitationClick_001 clickPanel_001 citeEbitda) = [] \<and>
   currentPage (handleCitationClick_001 clickPanel_001 citeEbitda) = 5 \<and>
   currentPage (handleCitationClick_001 clickPanel_001 citeDividend) = 1"
proof -
  have a: "pdfViewerRef clickPanel = Some (Some twoPages)" "alerts clickPanel = []"
    by (simp_all add: clickPanel_def)
  have b: "pdfViewerRef clickPanel_001 = Some (Some twoPages)" "alerts clickPanel_001 = []"
    "currentPage clickPanel_001 = 1"
    by (simp_all add: clickPanel_001_def)
  have f: "returned (located (Some twoPages) citeEbitda)"
    using returned_ebitda by (simp add: located_def citeEbitda_def)
  have n: "\<not> returned (located (Some twoPages) citeDividend)"
    using returned_dividend by (simp add: located_def citeDividend_def)
  have m: "notFoundMessage citeDividend =
      ''The reference '' @ [CHR 0x22] @ ''dividend'' @ [CHR 0x22] @ '' could not be found on page 5.''"
    by (simp add: notFoundMessage_def citeDividend_def numberToString_def digitChar_def)
  have p: "page_cit citeEbitda = 5" by (simp add: citeEbitda_def)
  show ?thesis
    using C5_citation_click[of clickPanel citeEbitda "Some twoPages" 7 clickPanel_001]
          C5_citation_click[of clickPanel citeDividend "Some twoPages" 7 clickPanel_001]
          a b f n m p
    by simp
qed

subsection \<open>Citation markers (C6)\<close>

lemma not_digit_brackets: "\<not> isDigit (CHR '']'')" "\<not> isDigit (CHR ''['')"
  by (simp_all add: isDigit_def)

lemma matchMarker_shape:
  assumes "\<forall>x\<in>set ds. isDigit x" "\<not> isDigit b"
  shows "matchMarker (CHR ''['' # ds @ b # rest) =
           (if ds \<noteq> [] \<and> b = CHR '']'' then Some (ds, rest) else None)"
proof -
  have tw: "takeWhile isDigit (ds @ b # rest) = ds"
    using assms by (induction ds) simp_all
  have dw: "dropWhile isDigit (ds @ b # rest) = b # rest"
    using assms by (induction ds) simp_all
  show ?thesis unfolding matchMarker_def list.case Let_def tw dw by simp
qed

lemma matchMarker_all_digits:
  assumes "\<forall>x\<in>set r. isDigit x"
  shows "matchMarker (CHR ''['' # r) = None"
proof -
  have h: "dropWhile isDigit r = []" using assms by (simp add: dropWhile_eq_Nil_conv)
  show ?thesis unfolding matchMarker_def list.case Let_def h by simp
qed

lemma digits_then_rest:
  assumes "\<not> (\<forall>x\<in>set r. isDigit x)"
  obtains ds b rest where "r = ds @ b # rest" "\<forall>x\<in>set ds. isDigit x" "\<not> isDigit b"
proof -
  have ne: "dropWhile isDigit r \<noteq> []" using assms by (simp add: dropWhile_eq_Nil_conv)
  then obtain b rest where d: "dropWhile isDigit r = b # rest" by (cases "dropWhile isDigit r") auto
  have "\<not> isDigit (hd (dropWhile isDigit r))" using ne by (rule hd_dropWhile)
  then have b: "\<not> isDigit b" using d by simp
  have "r = takeWhile isDigit r @ dropWhile isDigit r" by simp
  then have r: "r = takeWhile isDigit r @ b # rest" using d by simp
  have "\<forall>x\<in>set (takeWhile isDigit r). isDigit x" by (auto dest: set_takeWhileD)
  then show ?thesis using r b that by blast
qed

lemma matchMarker_token:
  assumes "validDigits ds"
  shows "matchMarker (markerToken ds @ post) = Some (ds, post)"
  using assms matchMarker_shape[of ds "CHR '']''" post]
  by (simp add: validDigits_def markerToken_def not_digit_brackets)

lemma matchMarker_SomeD:
  assumes "matchMarker s = Some (ds, rest)"
  shows "validDigits ds \<and> s = markerToken ds @ rest"
proof -
  from assms obtain r where s: "s = CHR ''['' # r"
    by (cases s) (auto simp: matchMarker_def split: if_splits)
  have "\<not> (\<forall>x\<in>set r. isDigit x)"
    using assms s matchMarker_all_digits[of r] by auto
  then obtain ds0 b rest0 where r: "r = ds0 @ b # rest0"
    and ds0: "\<forall>x\<in>set ds0. isDigit x" and b: "\<not> isDigit b"
    by (rule digits_then_rest)
  have "matchMarker s = (if ds0 \<noteq> [] \<and> b = CHR '']'' then Some (ds0, rest0) else None)"
    unfolding s r using ds0 b by (rule matchMarker_shape)
  with assms have "ds0 \<noteq> []" "b = CHR '']''" "ds = ds0" "rest = rest0"
    by (auto split: if_splits)
  then show ?thesis using s r ds0 by (simp add: validDigits_def markerToken_def)
qed

lemma matchMarker_append:
  "matchMarker s = Some (ds, rest) \<Longrightarrow> matchMarker (s @ t) = Some (ds, rest @ t)"
  using matchMarker_SomeD[of s ds rest] matchMarker_token[of ds "rest @ t"] by simp

lemma matchMarker_None_before_bracket:
  assumes "matchMarker (c # r) = None"
  shows "matchMarker ((c # r) @ CHR ''['' # t) = None"
proof (cases "c = CHR ''[''")
  case False
  then show ?thesis by (simp add: matchMarker_def)
next
  case True
  show ?thesis
  proof (cases "\<forall>x\<in>set r. isDigit x")
    case all: True
    then have "matchMarker (CHR ''['' # r @ CHR ''['' # t) =
        (if r \<noteq> [] \<and> CHR ''['' = CHR '']'' then Some (r, t) else None)"
      using not_digit_brackets(2) by (rule matchMarker_shape)
    then show ?thesis using True by simp
  next
    case False
    then obtain ds b rest where r: "r = ds @ b # rest"
      and ds: "\<forall>x\<in>set ds. isDigit x" and b: "\<not> isDigit b"
      by (rule digits_then_rest)
    have "matchMarker (CHR ''['' # ds @ b # rest) =
        (if ds \<noteq> [] \<and> b = CHR '']'' then Some (ds, rest) else None)"
      using ds b by (rule matchMarker_shape)
    with assms True r have no: "\<not> (ds \<noteq> [] \<and> b = CHR '']'')"
      by (auto split: if_splits)
    have "matchMarker (CHR ''['' # ds @ b # (rest @ CHR ''['' # t)) =
        (if ds \<noteq> [] \<and> b = CHR '']'' then Some (ds, rest @ CHR ''['' # t) else None)"
      using ds b by (rule matchMarker_shape)
    then show ?thesis using True r no by simp
  qed
qed

lemma splitMarkers_token:
  assumes "validDigits ds"
  shows "splitMarkers acc (pre @ markerToken ds @ post) =
           splitMarkers acc pre @ markerToken ds # splitMarkers [] post"
proof (induction acc pre rule: splitMarkers.induct)
  case (1 acc)
  have "markerToken ds @ post = CHR ''['' # ds @ CHR '']'' # post"
    by (simp add: markerToken_def)
  then have "splitMarkers acc (markerToken ds @ post) =
      (case matchMarker (markerToken ds @ post) of
         Some (ds', rest) \<Rightarrow> acc # markerToken ds' # splitMarkers [] rest
       | None \<Rightarrow> splitMarkers (acc @ [CHR ''['']) (ds @ CHR '']'' # post))"
    by simp
  then show ?case using matchMarker_token[OF assms, of post] by simp
next
  case (2 acc c cs)
  show ?case
  proof (cases "matchMarker (c # cs)")
    case None
    then have "matchMarker (c # (cs @ markerToken ds @ post)) = None"
      using matchMarker_None_before_bracket[of c cs "ds @ CHR '']'' # post"]
      by (simp add: markerToken_def)
    moreover have "splitMarkers (acc @ [c]) (cs @ markerToken ds @ post) =
        splitMarkers (acc @ [c]) cs @ markerToken ds # splitMarkers [] post"
      using None by (rule 2(1))
    ultimately show ?thesis using None by simp
  next
    case (Some a)
    obtain ds' rest where a: "a = (ds', rest)" by (cases a)
    then have "matchMarker (c # (cs @ markerToken ds @ post)) =
        Some (ds', rest @ markerToken ds @ post)"
      using Some matchMarker_append[of "c # cs" ds' rest "markerToken ds @ post"] by simp
    moreover have "splitMarkers [] (rest @ markerToken ds @ post) =
        splitMarkers [] rest @ markerToken ds # splitMarkers [] post"
      using Some a by (intro 2(2)[of a ds' rest]) simp_all
    ultimately show ?thesis using Some a by simp
  qed
qed

lemma searchMarker_token: "validDigits ds \<Longrightarrow> searchMarker (markerToken ds) = Some ds"
proof -
  assume v: "validDigits ds"
  have "markerToken ds = CHR ''['' # ds @ '']''" by (simp add: markerToken_def)
  then have "searchMarker (markerToken ds) =
      (case matchMarker (markerToken ds) of Some (ds', rest) \<Rightarrow> Some ds'
       | None \<Rightarrow> searchMarker (ds @ '']''))"
    by simp
  then show ?thesis using matchMarker_token[OF v, of "[]"] by simp
qed

lemma formatPart_token:
  "validDigits ds \<Longrightarrow> formatPart cs (k, markerToken ds) = resolveMarker cs k ds"
  by (simp add: formatPart_def resolveMarker_def searchMarker_token)

lemma resolveMarker_cases:
  "((\<forall>c\<in>set cs. id_cit c \<noteq> n) \<longrightarrow> find (\<lambda>c. id_cit c = n) cs = None) \<and>
   ((\<exists>c\<in>set cs. id_cit c = n) \<longrightarrow>
      (\<exists>c\<in>set cs. id_cit c = n \<and> find (\<lambda>c. id_cit c = n) cs = Some c))"
  by (induction cs) auto

lemma splitMarkers_nonempty: "splitMarkers acc s \<noteq> []"
  by (induction acc s rule: splitMarkers.induct) (auto split: option.splits)

lemma formatMessageContent_token:
  assumes "validDigits ds" "cs \<noteq> []"
  shows "formatMessageContent (pre @ markerToken ds @ post) (Some cs) =
           Parts (renderFrom cs 0 pre @
                  resolveMarker cs (length (splitMarkers [] pre)) ds #
                  renderFrom cs (Suc (length (splitMarkers [] pre))) post)"
  using assms
  by (simp add: formatMessageContent_def renderFrom_def splitMarkers_token enumerate_append_eq
        formatPart_token)

lemma searchMarker_None_iff:
  "searchMarker s = None \<longleftrightarrow> (\<forall>i<length s. matchMarker (drop i s) = None)"
proof (induction s)
  case Nil
  then show ?case by simp
next
  case (Cons c s)
  have "(\<forall>i<length (c # s). matchMarker (drop i (c # s)) = None) =
        (matchMarker (c # s) = None \<and> (\<forall>i<length s. matchMarker (drop i s) = None))"
    by (auto simp: less_Suc_eq_0_disj)
  then show ?case using Cons by (auto split: option.splits)
qed

lemma noMarkerIn_searchMarker:
  assumes "noMarkerIn acc s"
  shows "searchMarker acc = None"
  unfolding searchMarker_None_iff
proof (intro allI impI)
  fix i assume i: "i < length acc"
  show "matchMarker (drop i acc) = None"
  proof (cases "matchMarker (drop i acc)")
    case None
    then show ?thesis .
  next
    case (Some a)
    obtain ds rest where "a = (ds, rest)" by (cases a)
    then have "matchMarker (drop i acc @ s) = Some (ds, rest @ s)"
      using Some by (simp add: matchMarker_append)
    then show ?thesis using assms i by (simp add: noMarkerIn_def)
  qed
qed

lemma noMarkerIn_snoc:
  assumes "noMarkerIn acc (c # cs)" "matchMarker (c # cs) = None"
  shows "noMarkerIn (acc @ [c]) cs"
  unfolding noMarkerIn_def
proof (intro allI impI)
  fix i assume "i < length (acc @ [c])"
  then consider "i < length acc" | "i = length acc" by fastforce
  then show "matchMarker (drop i (acc @ [c]) @ cs) = None"
  proof cases
    case 1
    then show ?thesis using assms(1) by (simp add: noMarkerIn_def)
  next
    case 2
    then show ?thesis using assms(2) by simp
  qed
qed

lemma isMarkerToken_token: "validDigits ds \<Longrightarrow> isMarkerToken (markerToken ds)"
  using matchMarker_token[of ds "[]"] by (simp add: isMarkerToken_def)

lemma wellSplit_splitMarkers: "noMarkerIn acc s \<Longrightarrow> wellSplit (splitMarkers acc s)"
proof (induction acc s rule: splitMarkers.induct)
  case (1 acc)
  then show ?case by (simp add: noMarkerIn_searchMarker)
next
  case (2 acc c cs)
  show ?case
  proof (cases "matchMarker (c # cs)")
    case None
    have "wellSplit (splitMarkers (acc @ [c]) cs)"
      using None noMarkerIn_snoc[OF 2(3) None] by (rule 2(1))
    then show ?thesis using None by simp
  next
    case (Some a)
    obtain ds rest where a: "a = (ds, rest)" by (cases a)
    have "noMarkerIn [] rest" by (simp add: noMarkerIn_def)
    then have w: "wellSplit (splitMarkers [] rest)"
      using Some a by (intro 2(2)[of a ds rest]) simp_all
    have "validDigits ds" using Some a matchMarker_SomeD[of "c # cs" ds rest] by simp
    then have "isMarkerToken (markerToken ds)" by (rule isMarkerToken_token)
    moreover have "searchMarker acc = None" using 2(3) by (rule noMarkerIn_searchMarker)
    ultimately show ?thesis using Some a w by simp
  qed
qed

lemma wellSplit_spans:
  assumes "wellSplit parts" "CitationSpan j part c \<in> set (map (formatPart cs) (enumerate k parts))"
  shows "\<exists>ds. validDigits ds \<and> part = markerToken ds \<and> c \<in> set cs \<and> id_cit c = parseInt ds"
  using assms
proof (induction parts arbitrary: k rule: wellSplit.induct)
  case 1
  then show ?case by simp
next
  case (2 t)
  then show ?case by (simp add: formatPart_def)
next
  case (3 t m rest)
  from "3.prems"(1) have t: "searchMarker t = None" and m: "isMarkerToken m"
    and rest: "wellSplit rest" by simp_all
  from m obtain ds where mm: "matchMarker m = Some (ds, [])"
    by (auto simp: isMarkerToken_def split: option.splits)
  then have v: "validDigits ds" and tok: "m = markerToken ds"
    using matchMarker_SomeD[of m ds "[]"] by simp_all
  have "formatPart cs (k, t) = PlainText t" using t by (simp add: formatPart_def)
  with "3.prems"(2) consider
      (here) "CitationSpan j part c = formatPart cs (Suc k, m)"
    | (later) "CitationSpan j part c \<in> set (map (formatPart cs) (enumerate (Suc (Suc k)) rest))"
    by auto
  then show ?case
  proof cases
    case here
    then have "CitationSpan j part c = resolveMarker cs (Suc k) ds"
      using v tok by (simp add: formatPart_token)
    then have "part = markerToken ds" "find (\<lambda>c. id_cit c = parseInt ds) cs = Some c"
      by (auto simp: resolveMarker_def split: option.splits)
    then show ?thesis using v by (auto simp: find_Some_iff)
  next
    case later
    with rest show ?thesis by (rule "3.IH")
  qed
qed

lemma only_markers_are_spans:
  assumes "formatMessageContent cont cits = Parts nodes" "CitationSpan j part c \<in> set nodes"
  shows "\<exists>cs ds. cits = Some cs \<and> validDigits ds \<and> part = markerToken ds \<and>
                  c \<in> set cs \<and> id_cit c = parseInt ds"
proof -
  from assms(1) obtain cs where cs: "cits = Some cs"
    and nodes: "nodes = map (formatPart cs) (enumerate 0 (splitMarkers [] cont))"
    by (auto simp: formatMessageContent_def split: option.splits if_splits)
  have "wellSplit (splitMarkers [] cont)"
    by (rule wellSplit_splitMarkers) (simp add: noMarkerIn_def)
  then show ?thesis using wellSplit_spans[of "splitMarkers [] cont" j part c cs 0] assms(2) cs nodes
    by simp
qed

text \<open>
  C6: without citations the content is returned as one plain string. With citations, every
  occurrence of a marker \<open>[digits]\<close> in the content is an entry of its own in the returned
  array, between the rendering of the text before it and of the text after it. That entry
  is plain text when no citation of the list has the marker's number as id, and otherwise a
  \<open>span\<close> whose click handler is bound to a citation of the list with that id.
\<close>

theorem C6_markers_resolve:
  assumes "validDigits ds"
  shows "formatMessageContent cont None = Whole cont \<and>
         formatMessageContent cont (Some []) = Whole cont \<and>
         (cs \<noteq> [] \<longrightarrow>
            formatMessageContent (pre @ markerToken ds @ post) (Some cs) =
              Parts (renderFrom cs 0 pre @
                     resolveMarker cs (length (splitMarkers [] pre)) ds #
                     renderFrom cs (Suc (length (splitMarkers [] pre))) post)) \<and>
         ((\<forall>c\<in>set cs. id_cit c \<noteq> parseInt ds) \<longrightarrow>
            resolveMarker cs k ds = PlainText (markerToken ds)) \<and>
         ((\<exists>c\<in>set cs. id_cit c = parseInt ds) \<longrightarrow>
            (\<exists>c\<in>set cs. id_cit c = parseInt ds \<and>
                       resolveMarker cs k ds = CitationSpan k (markerToken ds) c))"
proof -
  have a: "formatMessageContent cont None = Whole cont"
          "formatMessageContent cont (Some []) = Whole cont"
    by (simp_all add: formatMessageContent_def)
  have b: "formatMessageContent (pre @ markerToken ds @ post) (Some cs) =
              Parts (renderFrom cs 0 pre @
                     resolveMarker cs (length (splitMarkers [] pre)) ds #
                     renderFrom cs (Suc (length (splitMarkers [] pre))) post)" if "cs \<noteq> []"
    using assms that by (rule formatMessageContent_token)
  have c: "resolveMarker cs k ds = PlainText (markerToken ds)"
    if "\<forall>c\<in>set cs. id_cit c \<noteq> parseInt ds"
    using that resolveMarker_cases[of cs "parseInt ds"] by (simp add: resolveMarker_def)
  have d: "\<exists>c\<in>set cs. id_cit c = parseInt ds \<and>
                       resolveMarker cs k ds = CitationSpan k (markerToken ds) c"
    if "\<exists>c\<in>set cs. id_cit c = parseInt ds"
  proof -
    from that resolveMarker_cases[of cs "parseInt ds"] obtain c where
      "c \<in> set cs" "id_cit c = parseInt ds" "find (\<lambda>c. id_cit c = parseInt ds) cs = Some c"
      by blast
    then show ?thesis by (auto simp: resolveMarker_def)
  qed
  from a b c d show ?thesis by blast
qed

text \<open>
  C6 at "growth [1][2]" with citations 1 and 2, and at "see [9]" with the same citations.
\<close>

theorem C6_witness:
  "validDigits ''1'' \<and> validDigits ''9'' \<and> [citeA, citeB] \<noteq> [] \<and>
   formatMessageContent ''growth [1][2]'' (Some [citeA, citeB]) =
     Parts [PlainText ''growth '', CitationSpan 1 ''[1]'' citeA, PlainText [],
            CitationSpan 3 ''[2]'' citeB, PlainText []] \<and>
   formatMessageContent ''see [9]'' (Some [citeA, citeB]) =
     Parts [PlainText ''see '', PlainText ''[9]'', PlainText []]"
proof -
  have v: "validDigits ''1''" "validDigits ''9''"
    by (simp_all add: validDigits_def isDigit_def)
  have p: "parseInt ''1'' = 1" "parseInt ''9'' = 9"
    by (simp_all add: parseInt_def digitValue_def)
  have r1: "resolveMarker [citeA, citeB] 1 ''1'' = CitationSpan 1 ''[1]'' citeA"
    by (simp add: resolveMarker_def p citeA_def citeB_def markerToken_def)
  have no9: "\<forall>c\<in>set [citeA, citeB]. id_cit c \<noteq> parseInt ''9''"
    by (simp add: p citeA_def citeB_def)
  have e: "renderFrom [citeA, citeB] 0 ''growth '' = [PlainText ''growth '']"
          "renderFrom [citeA, citeB] (Suc 1) ''[2]'' =
             [PlainText [], CitationSpan 3 ''[2]'' citeB, PlainText []]"
          "renderFrom [citeA, citeB] 0 ''see '' = [PlainText ''see '']"
          "renderFrom [citeA, citeB] (Suc 1) [] = [PlainText []]"
          "length (splitMarkers [] ''growth '') = 1" "length (splitMarkers [] ''see '') = 1"
    by code_simp+
  have "formatMessageContent (''growth '' @ markerToken ''1'' @ ''[2]'') (Some [citeA, citeB]) =
          Parts (renderFrom [citeA, citeB] 0 ''growth '' @
                 resolveMarker [citeA, citeB] (length (splitMarkers [] ''growth '')) ''1'' #
                 renderFrom [citeA, citeB] (Suc (length (splitMarkers [] ''growth ''))) ''[2]'')"
    using C6_markers_resolve[OF v(1), of "[]" "[citeA, citeB]" "''growth ''" "''[2]''" 1] by simp
  then have g: "formatMessageContent ''growth [1][2]'' (Some [citeA, citeB]) =
     Parts [PlainText ''growth '', CitationSpan 1 ''[1]'' citeA, PlainText [],
            CitationSpan 3 ''[2]'' citeB, PlainText []]"
    unfolding e r1 by (simp add: markerToken_def)
  have "formatMessageContent (''see '' @ markerToken ''9'' @ []) (Some [citeA, citeB]) =
          Parts (renderFrom [citeA, citeB] 0 ''see '' @
                 resolveMarker [citeA, citeB] (length (splitMarkers [] ''see '')) ''9'' #
                 renderFrom [citeA, citeB] (Suc (length (splitMarkers [] ''see ''))) [])"
       "resolveMarker [citeA, citeB] 1 ''9'' = PlainText (markerToken ''9'')"
    using C6_markers_resolve[OF v(2), of "[]" "[citeA, citeB]" "''see ''" "[]" 1] no9 by simp_all
  then have "formatMessageContent (''see '' @ markerToken ''9'' @ []) (Some [citeA, citeB]) =
          Parts ([PlainText ''see ''] @ PlainText (markerToken ''9'') # [PlainText []])"
    unfolding e by simp
  then have n: "formatMessageContent ''see [9]'' (Some [citeA, citeB]) =
     Parts [PlainText ''see '', PlainText ''[9]'', PlainText []]"
    by (simp add: markerToken_def)
  show ?thesis using v g n by simp
qed

subsection \<open>Sending a message (C10)\<close>

lemma dropWhile_rev_dropWhile_Nil:
  "dropWhile P (rev (dropWhile P s)) = [] \<longleftrightarrow> (\<forall>c\<in>set s. P c)"
proof
  assume "dropWhile P (rev (dropWhile P s)) = []"
  then have all: "\<forall>c\<in>set (dropWhile P s). P c" by (simp add: dropWhile_eq_Nil_conv)
  have "dropWhile P s = []"
  proof (rule ccontr)
    assume ne: "dropWhile P s \<noteq> []"
    then have "\<not> P (hd (dropWhile P s))" by (rule hd_dropWhile)
    moreover have "hd (dropWhile P s) \<in> set (dropWhile P s)" using ne by simp
    ultimately show False using all by blast
  qed
  then show "\<forall>c\<in>set s. P c" by (simp add: dropWhile_eq_Nil_conv)
next
  assume "\<forall>c\<in>set s. P c"
  then have "dropWhile P s = []" by (simp add: dropWhile_eq_Nil_conv)
  then show "dropWhile P (rev (dropWhile P s)) = []"
    by (simp only: rev.simps(1) dropWhile.simps(1))
qed

lemma trim_empty_iff: "trim s = [] \<longleftrightarrow> (\<forall>c\<in>set s. isWhiteSpace c)"
  by (simp only: trim_def rev_is_Nil_conv dropWhile_rev_dropWhile_Nil)

text \<open>
  C10: when the input is empty or all white space, \<open>handleSendMessage\<close> leaves the
  transcript, the input field and the pending timeouts as they are. When the input has a
  character that is not white space, it appends one user message with the input as typed
  (not trimmed), empties the input field and schedules one reply.
\<close>

theorem C10_blank_input_sends_nothing:
  "((\<forall>c\<in>set (inputMessage a). isWhiteSpace c) \<longrightarrow>
      snd (handleSendMessage dateNow newDate (e, a)) = a) \<and>
   ((\<exists>c\<in>set (inputMessage a). \<not> isWhiteSpace c) \<longrightarrow>
      snd (handleSendMessage dateNow newDate (e, a)) =
        a\<lparr>messages := messages a @ [userMessage dateNow newDate (inputMessage a)],
          inputMessage := [],
          timeouts := timeouts a @ [1000]\<rparr>)"
  by (auto simp: handleSendMessage_def Let_def trim_empty_iff userMessage_def)

text \<open>
  C10 at an input of two spaces, a tab and a no-break space, and at the input " hi ".
\<close>

theorem C10_witness:
  "list_all isWhiteSpace (inputMessage blankInput) \<and>
   snd (handleSendMessage 1700000000000 1700000000000 (\<lparr>defaultPrevented = False\<rparr>, blankInput)) =
     blankInput \<and>
   (\<exists>c\<in>set (inputMessage paddedInput). \<not> isWhiteSpace c) \<and>
   messages (snd (handleSendMessage 17 18 (\<lparr>defaultPrevented = False\<rparr>, paddedInput))) =
     [\<lparr>id_msg = ''17'', content = '' hi '', isUser = True, timestamp = 18, citations = None\<rparr>] \<and>
   timeouts (snd (handleSendMessage 17 18 (\<lparr>defaultPrevented = False\<rparr>, paddedInput))) = [1000]"
proof -
  have b: "\<forall>c\<in>set (inputMessage blankInput). isWhiteSpace c"
    by (simp add: blankInput_def isWhiteSpace_def)
  have p: "\<exists>c\<in>set (inputMessage paddedInput). \<not> isWhiteSpace c"
    by (simp add: paddedInput_def isWhiteSpace_def)
  have u: "userMessage 17 18 (inputMessage paddedInput) =
      \<lparr>id_msg = ''17'', content = '' hi '', isUser = True, timestamp = 18, citations = None\<rparr>"
    by (simp add: userMessage_def paddedInput_def digitChar_def)
  have m: "messages paddedInput = []" "timeouts paddedInput = []"
    by (simp_all add: paddedInput_def)
  show ?thesis
    using C10_blank_input_sends_nothing[of blankInput 1700000000000 1700000000000
            "\<lparr>defaultPrevented = False\<rparr>"]
          C10_blank_input_sends_nothing[of paddedInput 17 18 "\<lparr>defaultPrevented = False\<rparr>"]
          b p u m
    by (simp add: list_all_iff)
qed

end
